theory Spec2Isabelle
  imports Main
begin

section \<open>Strings and the Python built-ins the converter uses\<close>

text \<open>
  The converter \<^verbatim>\<open>pdf_to_epub.py\<close> works on Python \<^verbatim>\<open>str\<close> values. A Python string is
  a sequence of code points; here a string is a \<^typ>\<open>string\<close> whose characters are the
  code points 0 to 255. On that range the character classes of Python 3 are:
  \<^item> \<^verbatim>\<open>str.isspace\<close>, \<^verbatim>\<open>str.strip\<close> and the regular expression class \<^verbatim>\<open>\s\<close>:
    code points 9 to 13, 28 to 32, 0x85 and 0xA0;
  \<^item> the regular expression class \<^verbatim>\<open>\d\<close> and the digits \<^verbatim>\<open>int\<close> reads: the ten digits
    0 to 9;
  \<^item> the white space \<^verbatim>\<open>int\<close> drops around a number: code points 9 to 13, 32, 0x85
    and 0xA0 (not 28 to 31);
  \<^item> the line boundaries of \<^verbatim>\<open>str.splitlines\<close>: code points 10 to 13, 28 to 30 and 0x85;
  \<^item> under \<^verbatim>\<open>re.IGNORECASE\<close> a letter of the word Contenido matches itself and its
    upper-case form.
  Python integers are unbounded: page numbers are of type \<^typ>\<open>int\<close>.
\<close>

datatype error = ValueError | IndexError

definition newline :: char where
  "newline = CHR 0x0A"

definition is_space :: "char \<Rightarrow> bool" where
  "is_space c \<longleftrightarrow>
     c \<in> set [CHR 0x09, CHR 0x0A, CHR 0x0B, CHR 0x0C, CHR 0x0D,
              CHR 0x1C, CHR 0x1D, CHR 0x1E, CHR 0x1F, CHR 0x20, CHR 0x85, CHR 0xA0]"

definition is_int_space :: "char \<Rightarrow> bool" where
  "is_int_space c \<longleftrightarrow>
     c \<in> set [CHR 0x09, CHR 0x0A, CHR 0x0B, CHR 0x0C, CHR 0x0D, CHR 0x20, CHR 0x85, CHR 0xA0]"

definition is_digit :: "char \<Rightarrow> bool" where
  "is_digit c \<longleftrightarrow> c \<in> set ''0123456789''"

definition is_linebreak :: "char \<Rightarrow> bool" where
  "is_linebreak c \<longleftrightarrow>
     c \<in> set [CHR 0x0A, CHR 0x0B, CHR 0x0C, CHR 0x0D, CHR 0x1C, CHR 0x1D, CHR 0x1E, CHR 0x85]"

definition digit_val :: "char \<Rightarrow> int" where
  "digit_val c = of_char c - 48"

definition lower :: "char \<Rightarrow> char" where
  "lower c = (let n = (of_char c :: nat) in if 65 \<le> n \<and> n \<le> 90 then char_of (n + 32) else c)"

text \<open>\<^verbatim>\<open>s.strip()\<close>: white space removed at both ends.\<close>

definition strip :: "string \<Rightarrow> string" where
  "strip s = rev (dropWhile is_space (rev (dropWhile is_space s)))"

text \<open>
  \<^verbatim>\<open>s.splitlines()\<close>: the lines of \<open>s\<close> without their line boundaries; a carriage return
  followed by a line feed is one boundary, and a boundary at the very end opens no
  further line. \<open>cur\<close> is the line being read.
\<close>

fun splitlines_from :: "string \<Rightarrow> string \<Rightarrow> string list" where
  "splitlines_from cur [] = (if cur = [] then [] else [cur])"
| "splitlines_from cur [c] = (if is_linebreak c then [cur] else [cur @ [c]])"
| "splitlines_from cur (c # d # cs) =
     (if c = CHR 0x0D \<and> d = CHR 0x0A then cur # splitlines_from [] cs
      else if is_linebreak c then cur # splitlines_from [] (d # cs)
      else splitlines_from (cur @ [c]) (d # cs))"

definition splitlines :: "string \<Rightarrow> string list" where
  "splitlines s = splitlines_from [] s"

text \<open>
  \<^verbatim>\<open>int(s)\<close> in base ten: white space around the number is dropped, one sign may come
  first, and single underscores may stand between digits. Anything else raises
  \<^verbatim>\<open>ValueError\<close>. \<open>parse_digits acc cs\<close> reads what follows a digit.
\<close>

fun parse_digits :: "int \<Rightarrow> string \<Rightarrow> int option" where
  "parse_digits acc [] = Some acc"
| "parse_digits acc [c] = (if is_digit c then Some (acc * 10 + digit_val c) else None)"
| "parse_digits acc (c # d # cs) =
     (if is_digit c then parse_digits (acc * 10 + digit_val c) (d # cs)
      else if c = CHR ''_'' \<and> is_digit d then parse_digits (acc * 10 + digit_val d) cs
      else None)"

definition py_int :: "string \<Rightarrow> error + int" where
  "py_int s =
     (let t = rev (dropWhile is_int_space (rev (dropWhile is_int_space s)));
          neg = (case t of c # _ \<Rightarrow> c = CHR ''-'' | [] \<Rightarrow> False);
          body = (case t of c # cs \<Rightarrow> if c = CHR ''-'' \<or> c = CHR ''+'' then cs else t | [] \<Rightarrow> [])
      in case body of
           [] \<Rightarrow> Inl ValueError
         | c # cs \<Rightarrow>
             if is_digit c then
               (case parse_digits (digit_val c) cs of
                  None \<Rightarrow> Inl ValueError
                | Some n \<Rightarrow> Inr (if neg then - n else n))
             else Inl ValueError)"

text \<open>\<^verbatim>\<open>str(n)\<close> for an integer, as the f-strings format \<^verbatim>\<open>{idx+1}\<close> and \<^verbatim>\<open>{image_counter}\<close>.\<close>

fun str_nat :: "nat \<Rightarrow> string" where
  "str_nat n = (if n < 10 then [char_of (48 + n)] else str_nat (n div 10) @ [char_of (48 + n mod 10)])"

definition py_str :: "int \<Rightarrow> string" where
  "py_str i = (if i < 0 then CHR ''-'' # str_nat (nat (- i)) else str_nat (nat i))"

text \<open>
  \<^verbatim>\<open>s.replace(old, new)\<close>: every occurrence of \<open>old\<close>, found from the left and not
  overlapping, becomes \<open>new\<close>; an empty \<open>old\<close> matches before every character and at the
  end.
\<close>

function replace_str :: "string \<Rightarrow> string \<Rightarrow> string \<Rightarrow> string" where
  "replace_str old new s =
     (if old = [] then new @ concat (map (\<lambda>c. c # new) s)
      else if s = [] then []
      else if take (length old) s = old then new @ replace_str old new (drop (length old) s)
      else hd s # replace_str old new (tl s))"
  by pat_completeness auto
termination
  by (relation "measure (\<lambda>(old, new, s). length s)") (auto simp: neq_Nil_conv)

text \<open>\<^verbatim>\<open>min(xs)\<close> and \<^verbatim>\<open>max(xs)\<close> raise \<^verbatim>\<open>ValueError\<close> on an empty list.\<close>

fun py_min :: "int list \<Rightarrow> error + int" where
  "py_min [] = Inl ValueError"
| "py_min (x # xs) = Inr (fold min xs x)"

fun py_max :: "int list \<Rightarrow> error + int" where
  "py_max [] = Inl ValueError"
| "py_max (x # xs) = Inr (fold max xs x)"

section \<open>The TOC parser\<close>

text \<open>
  \<^verbatim>\<open>parse_toc_text\<close> matches each stripped, non-empty line against the pattern
  \<^verbatim>\<open>^(?!.*Contenido)(.*?)(?:\s*\.+\s*|\s+-\s+)(\d+)$\<close>, compiled with
  \<^verbatim>\<open>re.IGNORECASE\<close>, using \<^verbatim>\<open>pattern.match\<close> (anchored at the start of the line).

  The pattern is modelled piece by piece, in the order the backtracking matcher tries
  things. Every greedy repetition in it is followed by a piece that cannot start with
  a character of the repeated class (white space, then a period or a hyphen, then a
  digit, then the end), so giving characters back never helps and the longest run is
  the only one that can succeed.
\<close>

text \<open>\<^verbatim>\<open>(\d+)$\<close>: a non-empty run of digits up to the end of the string; \<^verbatim>\<open>$\<close> also
  matches before a line feed that ends the string. Returns group 2.\<close>

definition digits_to_end :: "string \<Rightarrow> string option" where
  "digits_to_end r =
     (let ds = takeWhile is_digit r; r' = dropWhile is_digit r
      in if ds \<noteq> [] \<and> (r' = [] \<or> r' = [newline]) then Some ds else None)"

text \<open>First alternative, \<^verbatim>\<open>\s*\.+\s*\<close>, then \<^verbatim>\<open>(\d+)$\<close>.\<close>

definition dotted_sep :: "string \<Rightarrow> string option" where
  "dotted_sep r =
     (let r1 = dropWhile is_space r;
          r2 = dropWhile (\<lambda>c. c = CHR ''.'') r1
      in if takeWhile (\<lambda>c. c = CHR ''.'') r1 = [] then None
         else digits_to_end (dropWhile is_space r2))"

text \<open>Second alternative, \<^verbatim>\<open>\s+-\s+\<close>, then \<^verbatim>\<open>(\d+)$\<close>.\<close>

definition hyphen_sep :: "string \<Rightarrow> string option" where
  "hyphen_sep r =
     (if takeWhile is_space r = [] then None
      else case dropWhile is_space r of
             [] \<Rightarrow> None
           | c # r2 \<Rightarrow>
               if c \<noteq> CHR ''-'' \<or> takeWhile is_space r2 = [] then None
               else digits_to_end (dropWhile is_space r2))"

text \<open>\<^verbatim>\<open>(?:\s*\.+\s*|\s+-\s+)(\d+)$\<close>: the first alternative is tried first.\<close>

definition sep_number :: "string \<Rightarrow> string option" where
  "sep_number r = (case dotted_sep r of Some ds \<Rightarrow> Some ds | None \<Rightarrow> hyphen_sep r)"

text \<open>
  \<^verbatim>\<open>(.*?)\<close> followed by the rest of the pattern: the lazy group takes the shortest
  prefix after which the rest matches; it grows one character at a time and never
  over a line feed. \<open>pre\<close> is the text taken so far. Returns groups 1 and 2.
\<close>

fun lazy_title :: "string \<Rightarrow> string \<Rightarrow> (string \<times> string) option" where
  "lazy_title pre [] = (case sep_number [] of Some ds \<Rightarrow> Some (pre, ds) | None \<Rightarrow> None)"
| "lazy_title pre (c # cs) =
     (case sep_number (c # cs) of
        Some ds \<Rightarrow> Some (pre, ds)
      | None \<Rightarrow> if c = newline then None else lazy_title (pre @ [c]) cs)"

text \<open>
  \<^verbatim>\<open>.*Contenido\<close> under \<^verbatim>\<open>re.IGNORECASE\<close>, from the start of \<open>s\<close>: the word occurs
  somewhere in \<open>s\<close>, with no line feed before it.
\<close>

fun has_contenido :: "string \<Rightarrow> bool" where
  "has_contenido [] = False"
| "has_contenido (c # cs) =
     (map lower (take 9 (c # cs)) = ''contenido'' \<or> (c \<noteq> newline \<and> has_contenido cs))"

text \<open>\<^verbatim>\<open>pattern.match(line)\<close>: \<open>None\<close>, or groups 1 and 2 of the match.\<close>

definition pattern_match :: "string \<Rightarrow> (string \<times> string) option" where
  "pattern_match line = (if has_contenido line then None else lazy_title [] line)"

text \<open>The loop over the lines; \<open>toc_entries\<close> is the list built so far.\<close>

fun parse_lines :: "string list \<Rightarrow> (string \<times> int) list \<Rightarrow> (string \<times> int) list" where
  "parse_lines [] toc_entries = toc_entries"
| "parse_lines (line # lines) toc_entries =
     (let line = strip line
      in if line = [] then parse_lines lines toc_entries
         else case pattern_match line of
                None \<Rightarrow> parse_lines lines toc_entries
              | Some (g1, g2) \<Rightarrow>
                  (let title = strip g1
                   in case py_int (strip g2) of
                        Inr page_num \<Rightarrow> parse_lines lines (toc_entries @ [(title, page_num)])
                      | Inl _ \<Rightarrow> parse_lines lines toc_entries))"

definition parse_toc_text :: "string \<Rightarrow> (string \<times> int) list" where
  "parse_toc_text text = parse_lines (splitlines text) []"

section \<open>Chapters\<close>

text \<open>
  \<^verbatim>\<open>create_chapter\<close> builds an \<^verbatim>\<open>epub.EpubHtml\<close> item; the record keeps the attributes
  the converter sets. The content is the XHTML page of the f-string, with the heading
  only for a title that is not blank.
\<close>

record epub_html =
  ch_title :: string
  ch_file_name :: string
  ch_lang :: string
  ch_content :: string

definition create_chapter :: \<open>string \<Rightarrow> string \<Rightarrow> string \<Rightarrow> epub_html\<close> where
  \<open>create_chapter title content filename =
     (let header_html = (if strip title \<noteq> [] then ''<h1>'' @ title @ ''</h1>'' else [])
      in \<lparr>ch_title = title, ch_file_name = filename, ch_lang = ''es'',
          ch_content =
            ''<html xmlns="http://www.w3.org/1999/xhtml">'' @ [newline] @
            ''  <head>'' @ [newline] @
            ''    <title>'' @ title @ ''</title>'' @ [newline] @
            ''    <link href="styles/custom.css" rel="stylesheet" type="text/css" />'' @ [newline] @
            ''  </head>'' @ [newline] @
            ''  <body>'' @ [newline] @
            ''    '' @ header_html @ [newline] @
            ''    <article epub:type="chapter" class="article-chapter">'' @ [newline] @
            ''      '' @ content @ [newline] @
            ''    </article>'' @ [newline] @
            ''  </body>'' @ [newline] @
            ''</html>''\<rparr>)\<close>

text \<open>
  The page contents are a dictionary from page numbers to strings.
  \<^verbatim>\<open>combine_pages\<close> appends, for \<open>p\<close> from \<open>start\<close> to \<open>end\<close>, the content of every page
  that is a key of the dictionary.
\<close>

type_synonym page_contents = "int \<rightharpoonup> string"

definition combine_pages :: "page_contents \<Rightarrow> int \<Rightarrow> int \<Rightarrow> string" where
  "combine_pages page_contents start end_page =
     foldl (\<lambda>combined p. case page_contents p of Some s \<Rightarrow> combined @ s | None \<Rightarrow> combined)
       [] [start..end_page]"

section \<open>Segmentation into chapters\<close>

text \<open>
  The loop \<^verbatim>\<open>for idx, entry in enumerate(toc_entries)\<close> of \<^verbatim>\<open>pdf_to_epub\<close>; \<open>toc_entries\<close>
  is the sorted list, the fifth argument what is left of its enumeration, and
  \<open>chapters\<close> the list built so far.
\<close>

fun entry_loop ::
  "page_contents \<Rightarrow> int list \<Rightarrow> (string \<times> int) list \<Rightarrow> int option \<Rightarrow>
     (nat \<times> string \<times> int) list \<Rightarrow> epub_html list \<Rightarrow> error + epub_html list" where
  "entry_loop page_contents content_pages toc_entries toc_page [] chapters = Inr chapters"
| "entry_loop page_contents content_pages toc_entries toc_page ((idx, title, start_page) # rest) chapters =
     (if Some start_page = toc_page
      then entry_loop page_contents content_pages toc_entries toc_page rest chapters
      else
        case (if int idx < int (length toc_entries) - 1
              then Inr (snd (toc_entries ! (idx + 1)) - 1)
              else py_max content_pages) of
          Inl e \<Rightarrow> Inl e
        | Inr end_page \<Rightarrow>
            entry_loop page_contents content_pages toc_entries toc_page rest
              (chapters @
                [create_chapter title (combine_pages page_contents start_page end_page)
                   (''chapter_'' @ py_str (int idx + 1) @ ''.xhtml'')]))"

text \<open>
  The segmentation block of \<^verbatim>\<open>pdf_to_epub\<close> (from \<^verbatim>\<open>chapters = []\<close> to the end of the
  fallback branch), as a function of the four values it reads. \<^verbatim>\<open>sorted\<close> with a key
  is a stable sort, as \<^const>\<open>sort_key\<close> is.
\<close>

definition segment_chapters ::
  "page_contents \<Rightarrow> int list \<Rightarrow> (string \<times> int) list \<Rightarrow> int option \<Rightarrow> error + epub_html list" where
  "segment_chapters page_contents content_pages toc_entries toc_page =
     (if toc_entries \<noteq> [] then
        (let toc_entries = sort_key snd toc_entries
         in case toc_entries of
              [] \<Rightarrow> Inl IndexError
            | first_entry # _ \<Rightarrow>
                (let first_entry_page = snd first_entry
                 in case py_min content_pages of
                      Inl e \<Rightarrow> Inl e
                    | Inr lowest \<Rightarrow>
                        entry_loop page_contents content_pages toc_entries toc_page
                          (enumerate 0 toc_entries)
                          (if first_entry_page > lowest
                           then [create_chapter ''Prefacio''
                                   (combine_pages page_contents lowest (first_entry_page - 1))
                                   ''chapter_prefacio.xhtml'']
                           else [])))
      else
        case py_min content_pages of
          Inl e \<Rightarrow> Inl e
        | Inr lowest \<Rightarrow>
            (case py_max content_pages of
               Inl e \<Rightarrow> Inl e
             | Inr highest \<Rightarrow>
                 Inr [create_chapter ''Contenido''
                        (combine_pages page_contents lowest highest) ''chapter_1.xhtml'']))"

section \<open>The conversion\<close>

text \<open>
  What \<^verbatim>\<open>pdf_to_epub\<close> reads from the document that \<^verbatim>\<open>fitz.open\<close> returns: the number
  of pages, the text of each page and the PNG bytes of each image of a page (pages by
  their 0-based index). Opening the file, rendering the cover, reading the style sheet
  and writing the package belong to the libraries and are taken to succeed; indexing
  page 0 of a document without pages raises \<^verbatim>\<open>IndexError\<close>.
\<close>

record pdf_doc =
  page_count :: nat
  page_text :: "nat \<Rightarrow> string"
  page_images :: "nat \<Rightarrow> string list"

text \<open>The loop over the images of one page.\<close>

fun image_loop ::
  "string list \<Rightarrow> string \<times> (string \<times> string) list \<times> int \<Rightarrow>
     string \<times> (string \<times> string) list \<times> int" where
  "image_loop [] st = st"
| "image_loop (img_bytes # imgs) (image_html, images_list, image_counter) =
     (let img_filename = ''images/img_'' @ py_str image_counter @ ''.png''
      in image_loop imgs
           (image_html @ ''<div><img src='' @ [CHR 0x27] @ img_filename @ [CHR 0x27] @
              '' alt='' @ [CHR 0x27] @ ''Image '' @ py_str image_counter @ [CHR 0x27] @ '' /></div>'',
            images_list @ [(img_filename, img_bytes)],
            image_counter + 1))"

text \<open>
  The marker with the original page number that ends the text of a page, the f-string
  \<^verbatim>\<open><br/><span class='page-ref'>[P..gina {i+1}]</span>\<close>; between P and g it holds the code
  points 0xC3 and 0xA1, as the source file does.
\<close>

definition page_marker :: "int \<Rightarrow> string" where
  "page_marker n =
     ''<br/><span class='' @ [CHR 0x27] @ ''page-ref'' @ [CHR 0x27] @ ''>[P'' @
     [CHR 0xC3, CHR 0xA1] @ ''gina '' @ py_str n @ '']</span>''"

text \<open>The loop \<^verbatim>\<open>for i in range(1, total_pages)\<close> that fills the page contents.\<close>

fun page_loop ::
  "pdf_doc \<Rightarrow> nat list \<Rightarrow> page_contents \<times> (string \<times> string) list \<times> int \<Rightarrow>
     page_contents \<times> (string \<times> string) list \<times> int" where
  "page_loop doc [] st = st"
| "page_loop doc (i # rest) (page_contents, images_list, image_counter) =
     (let text = page_text doc i;
          formatted_text = replace_str [newline] ''<br/>'' text;
          (image_html, images_list', image_counter') =
             image_loop (page_images doc i) ([], images_list, image_counter);
          formatted_text = formatted_text @ page_marker (int i + 1)
      in page_loop doc rest
           (page_contents(int i + 1 \<mapsto> formatted_text @ image_html), images_list', image_counter'))"

definition extract_pages :: "pdf_doc \<Rightarrow> page_contents \<times> (string \<times> string) list \<times> int" where
  "extract_pages doc = page_loop doc [1..<page_count doc] (Map.empty, [], 1)"

text \<open>The pages eligible as content: all but the cover and the TOC page.\<close>

definition content_pages_of :: "pdf_doc \<Rightarrow> int option \<Rightarrow> int list" where
  "content_pages_of doc toc_page =
     (let content_page_numbers = [2..int (page_count doc)]
      in case toc_page of
           Some t \<Rightarrow> filter (\<lambda>p. p \<noteq> t) content_page_numbers
         | None \<Rightarrow> content_page_numbers)"

text \<open>The TOC entries: parsed from the TOC page when it is one of the pages 2 to \<open>N\<close>.\<close>

definition toc_entries_of :: "pdf_doc \<Rightarrow> int option \<Rightarrow> (string \<times> int) list" where
  "toc_entries_of doc toc_page =
     (let content_page_numbers = [2..int (page_count doc)]
      in case toc_page of
           Some t \<Rightarrow>
             if t \<in> set content_page_numbers then parse_toc_text (page_text doc (nat (t - 1)))
             else []
         | None \<Rightarrow> [])"

text \<open>
  The book handed to \<^verbatim>\<open>epub.write_epub\<close>: the image items and the chapters (the
  navigation, the table of contents and the spine list the chapters in this order).
\<close>

record epub_book =
  book_images :: "(string \<times> string) list"
  book_chapters :: "epub_html list"

definition pdf_to_epub :: "pdf_doc \<Rightarrow> int option \<Rightarrow> error + epub_book" where
  "pdf_to_epub doc toc_page =
     (if page_count doc = 0 then Inl IndexError
      else
        (let (page_contents, images_list, image_counter) = extract_pages doc;
             content_pages = content_pages_of doc toc_page;
             toc_entries = toc_entries_of doc toc_page
         in case segment_chapters page_contents content_pages toc_entries toc_page of
              Inl e \<Rightarrow> Inl e
            | Inr chapters \<Rightarrow> Inr \<lparr>book_images = images_list, book_chapters = chapters\<rparr>))"

section \<open>The command line\<close>

text \<open>
  The \<^verbatim>\<open>__main__\<close> block, up to its call of \<^verbatim>\<open>pdf_to_epub\<close>: it either prints a
  message and exits with a status, or calls \<^verbatim>\<open>pdf_to_epub\<close> with three arguments, or
  fails in \<^verbatim>\<open>int\<close>. \<open>argv\<close> is \<^verbatim>\<open>sys.argv\<close>: the script's name, then the arguments.
\<close>

datatype run = Exit string int | Call_pdf_to_epub string string "int option"

definition usage :: string where
  "usage = ''Usage: python pdf_to_epub.py input.pdf output.epub [toc_page]''"

definition main :: "string list \<Rightarrow> error + run" where
  "main argv =
     (if length argv < 2 then Inr (Exit usage 1)
      else
        (let pdf_file = argv ! 1;
             epub_file = replace_str ''.pdf'' ''.epub'' (argv ! 1)
         in if length argv = 3
            then (case py_int (argv ! 2) of
                    Inl e \<Rightarrow> Inl e
                  | Inr toc_page_arg \<Rightarrow> Inr (Call_pdf_to_epub pdf_file epub_file (Some toc_page_arg)))
            else Inr (Call_pdf_to_epub pdf_file epub_file None)))"

section \<open>The page ranges of the chapters\<close>

text \<open>
  To say which pages a chapter combines, the segmentation is described a second time
  by the plan of each chapter: its title, first page, last page and file name. The
  plans are computed from the eligible pages, the TOC entries and the TOC page alone;
  \<open>render_plan\<close> turns a plan into the chapter. That \<^const>\<open>segment_chapters\<close> returns the
  rendered plans is proved below (\<open>segment_chapters_plan\<close>).
\<close>

type_synonym plan = "string \<times> int \<times> int \<times> string"

definition render_plan :: "page_contents \<Rightarrow> plan \<Rightarrow> epub_html" where
  "render_plan page_contents =
     (\<lambda>(title, first_page, last_page, filename).
        create_chapter title (combine_pages page_contents first_page last_page) filename)"

text \<open>The plan of the entry at position \<open>idx\<close> of the sorted entries \<open>ses\<close>.\<close>

definition entry_plan :: "int list \<Rightarrow> (string \<times> int) list \<Rightarrow> nat \<times> string \<times> int \<Rightarrow> plan" where
  "entry_plan content_pages ses =
     (\<lambda>(idx, title, start_page).
        (title, start_page,
         (if int idx < int (length ses) - 1 then snd (ses ! (idx + 1)) - 1
          else Max (set content_pages)),
         ''chapter_'' @ py_str (int idx + 1) @ ''.xhtml''))"

definition preface_plan :: "int list \<Rightarrow> (string \<times> int) list \<Rightarrow> plan list" where
  "preface_plan content_pages ses =
     (case ses of
        [] \<Rightarrow> []
      | first_entry # _ \<Rightarrow>
          if snd first_entry > Min (set content_pages)
          then [(''Prefacio'', Min (set content_pages), snd first_entry - 1, ''chapter_prefacio.xhtml'')]
          else [])"

definition not_skipped :: "int option \<Rightarrow> nat \<times> string \<times> int \<Rightarrow> bool" where
  "not_skipped toc_page = (\<lambda>(idx, title, start_page). Some start_page \<noteq> toc_page)"

definition entries_plan :: "int list \<Rightarrow> (string \<times> int) list \<Rightarrow> int option \<Rightarrow> plan list" where
  "entries_plan content_pages ses toc_page =
     map (entry_plan content_pages ses) (filter (not_skipped toc_page) (enumerate 0 ses))"

definition chapter_plan :: "int list \<Rightarrow> (string \<times> int) list \<Rightarrow> int option \<Rightarrow> plan list" where
  "chapter_plan content_pages toc_entries toc_page =
     (if toc_entries = []
      then [(''Contenido'', Min (set content_pages), Max (set content_pages), ''chapter_1.xhtml'')]
      else preface_plan content_pages (sort_key snd toc_entries) @
           entries_plan content_pages (sort_key snd toc_entries) toc_page)"

text \<open>The plans of the entries the loop skips: no chapter is made of them.\<close>

definition skipped_plan :: "int list \<Rightarrow> (string \<times> int) list \<Rightarrow> int option \<Rightarrow> plan list" where
  "skipped_plan content_pages toc_entries toc_page =
     map (entry_plan content_pages (sort_key snd toc_entries))
       (filter (\<lambda>x. \<not> not_skipped toc_page x) (enumerate 0 (sort_key snd toc_entries)))"

text \<open>Page \<open>p\<close> lies in the range of a plan.\<close>

definition in_range :: "int \<Rightarrow> plan \<Rightarrow> bool" where
  "in_range p = (\<lambda>(title, first_page, last_page, filename). first_page \<le> p \<and> p \<le> last_page)"

text \<open>The consecutive ranges that sorted starting pages cut, the last one ending at \<open>highest\<close>.\<close>

fun ranges_of :: "int list \<Rightarrow> int \<Rightarrow> (int \<times> int) list" where
  "ranges_of [] highest = []"
| "ranges_of [s] highest = [(s, highest)]"
| "ranges_of (s # s' # ss) highest = (s, s' - 1) # ranges_of (s' # ss) highest"

text \<open>How many of the ranges \<open>rs\<close> hold page \<open>p\<close>.\<close>

definition range_count :: "int \<Rightarrow> (int \<times> int) list \<Rightarrow> nat" where
  "range_count p rs = length (filter (\<lambda>(a, b). a \<le> p \<and> p \<le> b) rs)"

section \<open>What the pattern matches\<close>

text \<open>
  The meaning of the pieces of the pattern as sets of strings, with no reference to the
  order in which a matcher tries things: a separator is white space, one or more
  periods and white space, or white space, a hyphen and white space (white space
  required on both sides of the hyphen); \<open>sep_number_match r ds\<close> says that all of \<open>r\<close> is
  a separator, then the digits \<open>ds\<close> (group 2), then the end of the string or a final line
  feed. The functions of the parser above are proved to compute exactly this
  (\<open>sep_number_iff\<close>, \<open>lazy_title_iff\<close>, \<open>has_contenido_iff\<close>, \<open>pattern_match_iff\<close>).
\<close>

definition dotted_leader :: "string \<Rightarrow> bool" where
  "dotted_leader sep \<longleftrightarrow>
     (\<exists>w1 dots w2. sep = w1 @ dots @ w2 \<and> list_all is_space w1 \<and> dots \<noteq> [] \<and>
        list_all (\<lambda>c. c = CHR ''.'') dots \<and> list_all is_space w2)"

definition hyphen_leader :: "string \<Rightarrow> bool" where
  "hyphen_leader sep \<longleftrightarrow>
     (\<exists>w1 w2. sep = w1 @ ''-'' @ w2 \<and> w1 \<noteq> [] \<and> list_all is_space w1 \<and> w2 \<noteq> [] \<and>
        list_all is_space w2)"

definition sep_number_match :: "string \<Rightarrow> string \<Rightarrow> bool" where
  "sep_number_match r ds \<longleftrightarrow>
     (\<exists>sep tail. r = sep @ ds @ tail \<and> (dotted_leader sep \<or> hyphen_leader sep) \<and>
        ds \<noteq> [] \<and> list_all is_digit ds \<and> (tail = [] \<or> tail = [newline]))"

section \<open>Facts about the built-ins and the segmentation\<close>

lemma py_max_eq:
  assumes "cps \<noteq> []"
  shows "py_max cps = Inr (Max (set cps))"
proof (cases cps)
  case Nil
  then show ?thesis using assms by simp
next
  case (Cons x xs)
  have "fold max xs x = Max (set (x # xs))"
    by (rule Max.set_eq_fold [symmetric])
  then show ?thesis unfolding Cons by (simp only: py_max.simps)
qed

lemma py_min_eq:
  assumes "cps \<noteq> []"
  shows "py_min cps = Inr (Min (set cps))"
proof (cases cps)
  case Nil
  then show ?thesis using assms by simp
next
  case (Cons x xs)
  have "fold min xs x = Min (set (x # xs))"
    by (rule Min.set_eq_fold [symmetric])
  then show ?thesis unfolding Cons by (simp only: py_min.simps)
qed

lemma entry_loop_plan:
  "cps \<noteq> [] \<Longrightarrow>
   entry_loop pc cps ses tp xs chapters =
     Inr (chapters @ map (render_plan pc) (map (entry_plan cps ses) (filter (not_skipped tp) xs)))"
proof (induction xs arbitrary: chapters)
  case Nil
  then show ?case by simp
next
  case (Cons x xs)
  obtain idx title start_page where x: "x = (idx, title, start_page)"
    by (cases x) auto
  show ?case
    using Cons.prems
    by (simp add: x Cons.IH not_skipped_def entry_plan_def render_plan_def py_max_eq)
qed

lemma segment_chapters_plan:
  "cps \<noteq> [] \<Longrightarrow>
   segment_chapters pc cps es tp = Inr (map (render_plan pc) (chapter_plan cps es tp))"
proof (cases "es = []")
  case True
  assume "cps \<noteq> []"
  then show ?thesis using True
    by (simp add: segment_chapters_def chapter_plan_def py_min_eq py_max_eq render_plan_def)
next
  case False
  assume ne: "cps \<noteq> []"
  from False have "sort_key snd es \<noteq> []"
    by (metis length_sort length_0_conv)
  then obtain e rest where ses: "sort_key snd es = e # rest"
    by (cases "sort_key snd es") auto
  show ?thesis using False ne
    by (simp add: segment_chapters_def chapter_plan_def py_min_eq entry_loop_plan
        preface_plan_def entries_plan_def render_plan_def ses Let_def)
qed

lemma segment_chapters_empty:
  "segment_chapters pc [] es tp = Inl ValueError"
proof (cases "es = []")
  case True
  then show ?thesis by (simp add: segment_chapters_def)
next
  case False
  then have "sort_key snd es \<noteq> []"
    by (metis length_sort length_0_conv)
  then obtain e rest where ses: "sort_key snd es = e # rest"
    by (cases "sort_key snd es") auto
  show ?thesis using False
    by (simp add: segment_chapters_def ses Let_def)
qed


lemma ranges_of_count:
  "sorted (s # ss) \<Longrightarrow>
     (p < s \<longrightarrow> range_count p (ranges_of (s # ss) hi) = 0) \<and>
     (s \<le> p \<and> p \<le> hi \<longrightarrow> range_count p (ranges_of (s # ss) hi) = 1)"
proof (induction ss arbitrary: s)
  case Nil
  then show ?case by (simp add: range_count_def)
next
  case (Cons s' ss)
  from Cons.prems have le: "s \<le> s'" and srt: "sorted (s' # ss)"
    by simp_all
  note IH = Cons.IH [OF srt]
  show ?case
  proof (cases "p < s'")
    case True
    with IH have "range_count p (ranges_of (s' # ss) hi) = 0" by simp
    then show ?thesis using True le by (auto simp: range_count_def)
  next
    case False
    then show ?thesis using IH le by (auto simp: range_count_def)
  qed
qed

lemma entry_plan_ranges:
  "ses = pre @ suf \<Longrightarrow>
   map (\<lambda>(title, a, b, fname). (a, b)) (map (entry_plan cps ses) (enumerate (length pre) suf))
     = ranges_of (map snd suf) (Max (set cps))"
proof (induction suf arbitrary: pre)
  case Nil
  then show ?case by simp
next
  case (Cons x suf)
  obtain title start_page where x: "x = (title, start_page)" by (cases x) auto
  from Cons.prems have "ses = (pre @ [x]) @ suf" by simp
  from Cons.IH [OF this]
  have IH: "map (\<lambda>(title, a, b, fname). (a, b)) (map (entry_plan cps ses) (enumerate (Suc (length pre)) suf))
     = ranges_of (map snd suf) (Max (set cps))" by simp
  show ?case
  proof (cases suf)
    case Nil
    then show ?thesis using Cons.prems by (simp add: entry_plan_def x)
  next
    case (Cons y suf')
    have "ses ! (length pre + 1) = y" using Cons.prems Cons
      by (simp add: nth_append)
    then show ?thesis using IH Cons.prems Cons
      by (simp add: entry_plan_def x)
  qed
qed

lemma in_range_count:
  "length (filter (in_range p) pls) = range_count p (map (\<lambda>(title, a, b, fname). (a, b)) pls)"
  by (induction pls) (auto simp: range_count_def in_range_def)

lemma all_entries_count:
  assumes "ses = sort_key snd es" "ses = e # rest"
  shows "(p < snd e \<longrightarrow> length (filter (in_range p) (map (entry_plan cps ses) (enumerate 0 ses))) = 0) \<and>
         (snd e \<le> p \<and> p \<le> Max (set cps) \<longrightarrow>
            length (filter (in_range p) (map (entry_plan cps ses) (enumerate 0 ses))) = 1)"
proof -
  have "sorted (map snd ses)" using assms(1) by (simp add: sorted_sort_key)
  then have srt: "sorted (snd e # map snd rest)" using assms(2) by simp
  have eq: "map (\<lambda>(title, a, b, fname). (a, b)) (map (entry_plan cps ses) (enumerate 0 ses))
      = ranges_of (map snd ses) (Max (set cps))"
    using entry_plan_ranges [of ses "[]" ses cps] by simp
  have ms: "map snd ses = snd e # map snd rest" using assms(2) by simp
  have "length (filter (in_range p) (map (entry_plan cps ses) (enumerate 0 ses)))
      = range_count p (map (\<lambda>(title, a, b, fname). (a, b)) (map (entry_plan cps ses) (enumerate 0 ses)))"
    by (rule in_range_count)
  also have "\<dots> = range_count p (ranges_of (snd e # map snd rest) (Max (set cps)))"
    by (simp only: eq ms)
  finally have "length (filter (in_range p) (map (entry_plan cps ses) (enumerate 0 ses)))
      = range_count p (ranges_of (snd e # map snd rest) (Max (set cps)))" .
  then show ?thesis using ranges_of_count [OF srt, of p "Max (set cps)"] by simp
qed

lemma filter_split_count:
  "length (filter P (map f (filter Q xs))) + length (filter P (map f (filter (\<lambda>x. \<not> Q x) xs)))
     = length (filter P (map f xs))"
  by (induction xs) auto

lemma partition_count:
  assumes "p \<in> set cps"
  shows "length (filter (in_range p) (chapter_plan cps es tp)) +
         length (filter (in_range p) (skipped_plan cps es tp)) = 1"
proof (cases "es = []")
  case True
  have "Min (set cps) \<le> p" "p \<le> Max (set cps)" using assms by simp_all
  then show ?thesis using True by (simp add: chapter_plan_def skipped_plan_def in_range_def)
next
  case False
  define ses where "ses = sort_key snd es"
  from False have "ses \<noteq> []" unfolding ses_def
    by (metis length_sort length_0_conv)
  then obtain e rest where ses: "ses = e # rest" by (cases ses) auto
  have lo: "Min (set cps) \<le> p" and hi: "p \<le> Max (set cps)" using assms by simp_all
  note cnt = all_entries_count [OF ses_def ses, of p cps]
  have split: "length (filter (in_range p) (entries_plan cps ses tp)) +
        length (filter (in_range p) (skipped_plan cps es tp))
      = length (filter (in_range p) (map (entry_plan cps ses) (enumerate 0 ses)))"
    unfolding entries_plan_def skipped_plan_def ses_def by (rule filter_split_count)
  have pre: "length (filter (in_range p) (preface_plan cps ses)) = (if p < snd e then 1 else 0)"
    using lo by (auto simp: preface_plan_def ses in_range_def)
  have "length (filter (in_range p) (chapter_plan cps es tp)) =
      length (filter (in_range p) (preface_plan cps ses)) + length (filter (in_range p) (entries_plan cps ses tp))"
    using False by (simp add: chapter_plan_def ses_def)
  then show ?thesis using False split pre cnt hi by (cases "p < snd e") auto
qed


lemma skipped_plan_empty:
  assumes "\<forall>e\<in>set es. Some (snd e) \<noteq> tp"
  shows "skipped_plan cps es tp = []"
proof -
  have "\<And>x. x \<in> set (enumerate 0 (sort_key snd es)) \<Longrightarrow> not_skipped tp x"
  proof -
    fix x assume "x \<in> set (enumerate 0 (sort_key snd es))"
    then have "snd x \<in> set (sort_key snd es)"
      by (metis in_set_zipE enumerate_eq_zip prod.collapse)
    then have "snd x \<in> set es" by simp
    with assms have "Some (snd (snd x)) \<noteq> tp" by blast
    then show "not_skipped tp x" by (simp add: not_skipped_def split_def)
  qed
  then show ?thesis by (simp add: skipped_plan_def filter_empty_conv)
qed

lemma combine_pages_concat:
  "combine_pages pc a b = concat (map (\<lambda>p. case pc p of Some s \<Rightarrow> s | None \<Rightarrow> []) [a..b])"
proof -
  have "foldl (\<lambda>combined p. case pc p of Some s \<Rightarrow> combined @ s | None \<Rightarrow> combined) acc ps
      = acc @ concat (map (\<lambda>p. case pc p of Some s \<Rightarrow> s | None \<Rightarrow> []) ps)" for acc ps
    by (induction ps arbitrary: acc) (auto split: option.splits)
  then show ?thesis by (simp add: combine_pages_def)
qed

lemma sort_key_Cons:
  assumes "es \<noteq> []"
  shows "\<exists>e rest. sort_key snd es = e # rest"
proof -
  from assms have "sort_key snd es \<noteq> []"
    by (metis length_sort length_0_conv)
  then show ?thesis by (cases "sort_key snd es") auto
qed

lemma file_name_render_plan:
  "ch_file_name (render_plan pc pl) = snd (snd (snd pl))"
  by (simp add: render_plan_def create_chapter_def split_def Let_def)

lemma title_render_plan:
  "ch_title (render_plan pc pl) = fst pl"
  by (simp add: render_plan_def create_chapter_def split_def Let_def)

lemma page_loop_dom:
  "dom (fst (page_loop doc is st)) = dom (fst st) \<union> (\<lambda>i. int i + 1) ` set is"
proof (induction "is" arbitrary: st)
  case Nil
  then show ?case by simp
next
  case (Cons i rest)
  obtain pc il c where st: "st = (pc, il, c)" by (cases st) auto
  show ?case
    by (simp add: st Cons.IH split_def Let_def) auto
qed

lemma extract_pages_dom:
  "dom (fst (extract_pages doc)) = {2..int (page_count doc)}"
proof -
  have "(\<lambda>i. int i + 1) ` {1..<page_count doc} = {2..int (page_count doc)}"
  proof (rule set_eqI)
    fix x
    show "x \<in> (\<lambda>i. int i + 1) ` {1..<page_count doc} \<longleftrightarrow> x \<in> {2..int (page_count doc)}"
    proof
      assume "x \<in> (\<lambda>i. int i + 1) ` {1..<page_count doc}"
      then show "x \<in> {2..int (page_count doc)}" by auto
    next
      assume x: "x \<in> {2..int (page_count doc)}"
      then have "nat (x - 1) \<in> {1..<page_count doc}" by auto
      moreover have "x = int (nat (x - 1)) + 1" using x by auto
      ultimately show "x \<in> (\<lambda>i. int i + 1) ` {1..<page_count doc}" by (rule rev_image_eqI)
    qed
  qed
  then show ?thesis by (simp add: extract_pages_def page_loop_dom)
qed


lemma Min_upto:
  assumes "a \<le> b"
  shows "Min (set [a..b]) = a"
  using assms by (intro Min_eqI) auto

lemma Max_upto:
  assumes "a \<le> b"
  shows "Max (set [a..b]) = b"
  using assms by (intro Max_eqI) auto

lemma upto_ne:
  assumes "a \<le> b"
  shows "[a..b] \<noteq> []"
  using assms by (simp add: upto.simps)

lemma content_pages_of_empty:
  "content_pages_of doc toc_page = [] \<longleftrightarrow>
     page_count doc \<le> 1 \<or> (page_count doc = 2 \<and> toc_page = Some 2)"
proof (cases toc_page)
  case None
  have "[2..int (page_count doc)] = [] \<longleftrightarrow> page_count doc \<le> 1"
    by (simp add: upto.simps) 
  then show ?thesis using None by (simp add: content_pages_of_def)
next
  case (Some t)
  have "filter (\<lambda>p. p \<noteq> t) [2..int (page_count doc)] = [] \<longleftrightarrow> {2..int (page_count doc)} \<subseteq> {t}"
    by (auto simp: filter_empty_conv)
  also have "\<dots> \<longleftrightarrow> page_count doc \<le> 1 \<or> (page_count doc = 2 \<and> t = 2)"
  proof
    assume sub: "{2..int (page_count doc)} \<subseteq> {t}"
    show "page_count doc \<le> 1 \<or> (page_count doc = 2 \<and> t = 2)"
    proof (cases "page_count doc \<le> 1")
      case True
      then show ?thesis by simp
    next
      case False
      then have "2 \<in> {2..int (page_count doc)}" "int (page_count doc) \<in> {2..int (page_count doc)}"
        by auto
      with sub have "2 \<in> {t}" "int (page_count doc) \<in> {t}" by blast+
      then have "t = 2" "int (page_count doc) = t" by simp_all
      then show ?thesis by simp
    qed
  next
    assume "page_count doc \<le> 1 \<or> (page_count doc = 2 \<and> t = 2)"
    then show "{2..int (page_count doc)} \<subseteq> {t}" by auto
  qed
  finally show ?thesis using Some by (simp add: content_pages_of_def)
qed

lemma toc_page_not_content:
  "t \<notin> set (content_pages_of doc (Some t))"
  by (simp add: content_pages_of_def)

lemma digit_val_nonneg:
  assumes "is_digit c"
  shows "0 \<le> digit_val c"
  using assms by (auto simp: is_digit_def digit_val_def)

lemma digit_not_space:
  assumes "is_digit c"
  shows "\<not> is_space c" and "\<not> is_int_space c" and "c \<noteq> CHR ''-''" and "c \<noteq> CHR ''+''"
  using assms by (auto simp: is_digit_def is_space_def is_int_space_def)

lemma dropWhile_both_ends:
  assumes "xs \<noteq> []" and "\<not> P (hd xs)" and "\<not> P (last xs)"
  shows "rev (dropWhile P (rev (dropWhile P xs))) = xs"
proof -
  from assms(1,2) have a: "dropWhile P xs = xs" by (cases xs) simp_all
  from assms(1,3) have "dropWhile P (rev xs) = rev xs"
    by (cases "rev xs") (simp_all add: hd_rev [symmetric])
  with a show ?thesis by simp
qed

lemma parse_digits_all:
  assumes "\<forall>c\<in>set cs. is_digit c" and "0 \<le> acc"
  shows "\<exists>n. parse_digits acc cs = Some n \<and> 0 \<le> n"
  using assms
proof (induction acc cs rule: parse_digits.induct)
  case (1 acc)
  then show ?case by simp
next
  case (2 acc c)
  then show ?case by (simp add: digit_val_nonneg)
next
  case (3 acc c d cs)
  from "3.prems" have c: "is_digit c" and rest: "\<forall>c\<in>set (d # cs). is_digit c" by simp_all
  have "0 \<le> acc * 10 + digit_val c" using "3.prems"(2) digit_val_nonneg [OF c] by simp
  from "3.IH"(1) [OF c rest this] show ?case using c by simp
qed

lemma py_int_digits:
  assumes "ds \<noteq> []" and "\<forall>c\<in>set ds. is_digit c"
  shows "\<exists>n. py_int ds = Inr n \<and> 0 \<le> n"
proof -
  from assms obtain c cs where ds: "ds = c # cs" by (cases ds) auto
  from assms have hd: "is_digit (hd ds)" and lst: "is_digit (last ds)" by simp_all
  have t: "rev (dropWhile is_int_space (rev (dropWhile is_int_space ds))) = ds"
    using assms(1) digit_not_space(2) [OF hd] digit_not_space(2) [OF lst]
    by (rule dropWhile_both_ends)
  from assms(2) ds have c: "is_digit c" and cs: "\<forall>c\<in>set cs. is_digit c" by simp_all
  from parse_digits_all [OF cs digit_val_nonneg [OF c]]
  obtain n where n: "parse_digits (digit_val c) cs = Some n" "0 \<le> n" by blast
  have "py_int ds = Inr n"
    unfolding py_int_def t using c n(1) digit_not_space(3,4) [OF c]
    by (simp add: ds)
  with n(2) show ?thesis by blast
qed

lemma strip_digits:
  assumes "ds \<noteq> []" and "\<forall>c\<in>set ds. is_digit c"
  shows "strip ds = ds"
proof -
  from assms have hd: "is_digit (hd ds)" and lst: "is_digit (last ds)" by simp_all
  show ?thesis unfolding strip_def
    using assms(1) digit_not_space(1) [OF hd] digit_not_space(1) [OF lst]
    by (rule dropWhile_both_ends)
qed

lemma digits_to_end_digits:
  assumes "digits_to_end r = Some ds"
  shows "ds \<noteq> [] \<and> (\<forall>c\<in>set ds. is_digit c)"
  using assms by (auto simp: digits_to_end_def Let_def split: if_splits dest: set_takeWhileD)

lemma sep_number_digits:
  assumes "sep_number r = Some ds"
  shows "ds \<noteq> [] \<and> (\<forall>c\<in>set ds. is_digit c)"
proof (cases "dotted_sep r")
  case None
  with assms have "hyphen_sep r = Some ds" by (simp add: sep_number_def)
  then obtain r' where "digits_to_end r' = Some ds"
    by (auto simp: hyphen_sep_def split: if_splits list.splits)
  then show ?thesis by (rule digits_to_end_digits)
next
  case (Some ds')
  with assms have "dotted_sep r = Some ds" by (simp add: sep_number_def)
  then obtain r' where "digits_to_end r' = Some ds"
    by (auto simp: dotted_sep_def Let_def split: if_splits)
  then show ?thesis by (rule digits_to_end_digits)
qed

lemma lazy_title_digits:
  assumes "lazy_title pre r = Some (g1, g2)"
  shows "g2 \<noteq> [] \<and> (\<forall>c\<in>set g2. is_digit c)"
  using assms
proof (induction r arbitrary: pre)
  case Nil
  then show ?case by (auto split: option.splits dest: sep_number_digits)
next
  case (Cons c cs)
  show ?case
  proof (cases "sep_number (c # cs)")
    case None
    with Cons.prems have "lazy_title (pre @ [c]) cs = Some (g1, g2)"
      by (simp split: if_splits)
    then show ?thesis by (rule Cons.IH)
  next
    case (Some ds)
    with Cons.prems have "g2 = ds" by simp
    with sep_number_digits [OF Some] show ?thesis by simp
  qed
qed

lemma pattern_match_digits:
  assumes "pattern_match line = Some (g1, g2)"
  shows "g2 \<noteq> [] \<and> (\<forall>c\<in>set g2. is_digit c)"
  using assms by (auto simp: pattern_match_def split: if_splits dest: lazy_title_digits)

lemma parse_lines_nonneg:
  assumes "\<forall>e\<in>set toc_entries. 0 \<le> snd e"
  shows "\<forall>e\<in>set (parse_lines lines toc_entries). 0 \<le> snd e"
  using assms
proof (induction lines arbitrary: toc_entries)
  case Nil
  then show ?case by simp
next
  case (Cons line lines)
  show ?case
  proof (cases "pattern_match (strip line)")
    case None
    then show ?thesis using Cons.IH [OF Cons.prems] by (simp add: Let_def)
  next
    case (Some g)
    obtain g1 g2 where g: "g = (g1, g2)" by (cases g) auto
    from pattern_match_digits [OF Some [unfolded g]]
    have d: "g2 \<noteq> []" "\<forall>c\<in>set g2. is_digit c" by simp_all
    from py_int_digits [OF d] obtain n where n: "py_int g2 = Inr n" "0 \<le> n" by blast
    have "\<forall>e\<in>set (toc_entries @ [(strip g1, n)]). 0 \<le> snd e"
      using Cons.prems n(2) by simp
    from Cons.IH [OF this] Cons.IH [OF Cons.prems] show ?thesis
      by (simp add: Let_def Some g strip_digits [OF d] n(1))
  qed
qed

lemma main_usage:
  assumes "length argv < 2"
  shows "main argv = Inr (Exit usage 1)"
  using assms by (simp add: main_def)

lemma span_append:
  assumes "list_all P as" and "bs = [] \<or> \<not> P (hd bs)"
  shows "takeWhile P (as @ bs) = as" and "dropWhile P (as @ bs) = bs"
proof -
  from assms(2) have "takeWhile P bs = []" "dropWhile P bs = bs"
    by (cases bs; simp)+
  with assms(1) show "takeWhile P (as @ bs) = as" "dropWhile P (as @ bs) = bs"
    by (simp_all add: list_all_iff)
qed

lemma class_facts:
  "\<not> is_space CHR ''.''" "\<not> is_space CHR ''-''" "\<not> is_digit CHR ''.''" "\<not> is_digit CHR ''-''"
  "\<not> is_digit newline" "is_space newline" "CHR ''-'' \<noteq> CHR ''.''"
  by (simp_all add: is_space_def is_digit_def newline_def)

lemma digits_to_end_iff:
  "digits_to_end r = Some ds \<longleftrightarrow>
     (\<exists>tail. r = ds @ tail \<and> ds \<noteq> [] \<and> list_all is_digit ds \<and> (tail = [] \<or> tail = [newline]))"
proof
  assume "digits_to_end r = Some ds"
  then have ds: "ds = takeWhile is_digit r" "ds \<noteq> []"
    and tl: "dropWhile is_digit r = [] \<or> dropWhile is_digit r = [newline]"
    by (auto simp: digits_to_end_def Let_def split: if_splits)
  have "r = ds @ dropWhile is_digit r" by (simp add: ds)
  moreover have "list_all is_digit ds" unfolding ds(1) list_all_iff by (auto dest: set_takeWhileD)
  ultimately show "\<exists>tail. r = ds @ tail \<and> ds \<noteq> [] \<and> list_all is_digit ds \<and> (tail = [] \<or> tail = [newline])"
    using ds(2) tl by blast
next
  assume "\<exists>tail. r = ds @ tail \<and> ds \<noteq> [] \<and> list_all is_digit ds \<and> (tail = [] \<or> tail = [newline])"
  then obtain tail where r: "r = ds @ tail" and ds: "ds \<noteq> []" "list_all is_digit ds"
    and tl: "tail = [] \<or> tail = [newline]" by blast
  from tl have "tail = [] \<or> \<not> is_digit (hd tail)" by (auto simp: class_facts)
  from span_append [OF ds(2) this] show "digits_to_end r = Some ds"
    using ds(1) tl by (simp add: digits_to_end_def r Let_def)
qed

lemma digits_hd:
  assumes "ds \<noteq> []" "list_all is_digit ds"
  shows "is_digit (hd (ds @ tail))"
  using assms by (cases ds) simp_all

lemma dotted_sep_iff:
  "dotted_sep r = Some ds \<longleftrightarrow>
     (\<exists>sep tail. r = sep @ ds @ tail \<and> dotted_leader sep \<and> ds \<noteq> [] \<and> list_all is_digit ds \<and>
        (tail = [] \<or> tail = [newline]))"
proof
  assume a: "dotted_sep r = Some ds"
  define w1 where "w1 = takeWhile is_space r"
  define r1 where "r1 = dropWhile is_space r"
  define dots where "dots = takeWhile (\<lambda>c. c = CHR ''.'') r1"
  define r2 where "r2 = dropWhile (\<lambda>c. c = CHR ''.'') r1"
  define w2 where "w2 = takeWhile is_space r2"
  define r3 where "r3 = dropWhile is_space r2"
  from a have dots: "dots \<noteq> []" and d: "digits_to_end r3 = Some ds"
    by (auto simp: dotted_sep_def Let_def dots_def r1_def r2_def r3_def split: if_splits)
  from d obtain tail where r3: "r3 = ds @ tail" and ds: "ds \<noteq> []" "list_all is_digit ds"
    and tl: "tail = [] \<or> tail = [newline]" unfolding digits_to_end_iff by blast
  have "r = w1 @ r1" "r1 = dots @ r2" "r2 = w2 @ r3"
    by (simp_all add: w1_def r1_def dots_def r2_def w2_def r3_def)
  then have r: "r = (w1 @ dots @ w2) @ ds @ tail" by (simp add: r3)
  have "list_all is_space w1" "list_all (\<lambda>c. c = CHR ''.'') dots" "list_all is_space w2"
    unfolding w1_def dots_def w2_def list_all_iff by (auto dest: set_takeWhileD)
  with dots have "dotted_leader (w1 @ dots @ w2)" unfolding dotted_leader_def by blast
  with r ds tl show "\<exists>sep tail. r = sep @ ds @ tail \<and> dotted_leader sep \<and> ds \<noteq> [] \<and>
      list_all is_digit ds \<and> (tail = [] \<or> tail = [newline])" by blast
next
  assume "\<exists>sep tail. r = sep @ ds @ tail \<and> dotted_leader sep \<and> ds \<noteq> [] \<and> list_all is_digit ds \<and>
        (tail = [] \<or> tail = [newline])"
  then obtain w1 dots w2 tail where r: "r = (w1 @ dots @ w2) @ ds @ tail"
    and w1: "list_all is_space w1" and dots: "dots \<noteq> []" "list_all (\<lambda>c. c = CHR ''.'') dots"
    and w2: "list_all is_space w2" and ds: "ds \<noteq> []" "list_all is_digit ds"
    and tl: "tail = [] \<or> tail = [newline]"
    unfolding dotted_leader_def by blast
  have d: "digits_to_end (ds @ tail) = Some ds" unfolding digits_to_end_iff using ds tl by blast
  have hd_dots: "hd (dots @ w2 @ ds @ tail) = CHR ''.''" using dots by (cases dots) simp_all
  have 1: "dropWhile is_space (w1 @ dots @ w2 @ ds @ tail) = dots @ w2 @ ds @ tail"
    by (rule span_append(2) [OF w1]) (simp add: hd_dots class_facts)
  have "\<not> is_space (hd (ds @ tail))" using digits_hd [OF ds, of tail]
    by (auto simp: is_digit_def is_space_def)
  then have 3: "dropWhile is_space (w2 @ ds @ tail) = ds @ tail"
    by (intro span_append(2) [OF w2]) simp
  have "hd (w2 @ ds @ tail) \<noteq> CHR ''.''"
  proof (cases w2)
    case Nil
    then show ?thesis using digits_hd [OF ds, of tail] by (auto simp: class_facts)
  next
    case (Cons c cs)
    then show ?thesis using w2 by (auto simp: class_facts)
  qed
  then have 2: "takeWhile (\<lambda>c. c = CHR ''.'') (dots @ w2 @ ds @ tail) = dots"
      "dropWhile (\<lambda>c. c = CHR ''.'') (dots @ w2 @ ds @ tail) = w2 @ ds @ tail"
    by (intro span_append [OF dots(2)]; simp)+
  show "dotted_sep r = Some ds"
    using dots(1) by (simp add: dotted_sep_def Let_def r 1 2 3 d)
qed

lemma hyphen_sep_iff:
  "hyphen_sep r = Some ds \<longleftrightarrow>
     (\<exists>sep tail. r = sep @ ds @ tail \<and> hyphen_leader sep \<and> ds \<noteq> [] \<and> list_all is_digit ds \<and>
        (tail = [] \<or> tail = [newline]))"
proof
  assume a: "hyphen_sep r = Some ds"
  define w1 where "w1 = takeWhile is_space r"
  define r1 where "r1 = dropWhile is_space r"
  from a have w1: "w1 \<noteq> []" by (auto simp: hyphen_sep_def w1_def split: if_splits)
  from a obtain r2 where r1: "r1 = CHR ''-'' # r2" and w2: "takeWhile is_space r2 \<noteq> []"
    and d: "digits_to_end (dropWhile is_space r2) = Some ds"
    by (auto simp: hyphen_sep_def r1_def split: if_splits list.splits)
  from d obtain tail where r3: "dropWhile is_space r2 = ds @ tail" and ds: "ds \<noteq> []" "list_all is_digit ds"
    and tl: "tail = [] \<or> tail = [newline]" unfolding digits_to_end_iff by blast
  have "r = w1 @ r1" "r2 = takeWhile is_space r2 @ dropWhile is_space r2"
    by (simp_all add: w1_def r1_def)
  then have r: "r = (w1 @ ''-'' @ takeWhile is_space r2) @ ds @ tail"
    using r1 r3 by simp
  have "list_all is_space w1" "list_all is_space (takeWhile is_space r2)"
    unfolding w1_def list_all_iff by (auto dest: set_takeWhileD)
  with w1 w2 have "hyphen_leader (w1 @ ''-'' @ takeWhile is_space r2)"
    unfolding hyphen_leader_def by blast
  with r ds tl show "\<exists>sep tail. r = sep @ ds @ tail \<and> hyphen_leader sep \<and> ds \<noteq> [] \<and>
      list_all is_digit ds \<and> (tail = [] \<or> tail = [newline])" by blast
next
  assume "\<exists>sep tail. r = sep @ ds @ tail \<and> hyphen_leader sep \<and> ds \<noteq> [] \<and> list_all is_digit ds \<and>
        (tail = [] \<or> tail = [newline])"
  then obtain w1 w2 tail where r: "r = (w1 @ ''-'' @ w2) @ ds @ tail"
    and w1: "w1 \<noteq> []" "list_all is_space w1" and w2: "w2 \<noteq> []" "list_all is_space w2"
    and ds: "ds \<noteq> []" "list_all is_digit ds" and tl: "tail = [] \<or> tail = [newline]"
    unfolding hyphen_leader_def by blast
  have d: "digits_to_end (ds @ tail) = Some ds" unfolding digits_to_end_iff using ds tl by blast
  have 1: "takeWhile is_space (w1 @ CHR ''-'' # w2 @ ds @ tail) = w1"
      "dropWhile is_space (w1 @ CHR ''-'' # w2 @ ds @ tail) = CHR ''-'' # w2 @ ds @ tail"
    by (intro span_append [OF w1(2)]; simp add: class_facts)+
  have "\<not> is_space (hd (ds @ tail))" using digits_hd [OF ds, of tail]
    by (auto simp: is_digit_def is_space_def)
  then have 2: "takeWhile is_space (w2 @ ds @ tail) = w2" "dropWhile is_space (w2 @ ds @ tail) = ds @ tail"
    by (intro span_append [OF w2(2)]; simp)+
  show "hyphen_sep r = Some ds"
    using w1(1) w2(1) by (simp add: hyphen_sep_def r 1 2 d)
qed

lemma leaders_disjoint:
  assumes "dotted_sep r = Some ds"
  shows "hyphen_sep r = None"
proof -
  from assms have "takeWhile (\<lambda>c. c = CHR ''.'') (dropWhile is_space r) \<noteq> []"
    by (auto simp: dotted_sep_def Let_def split: if_splits)
  then have "hd (dropWhile is_space r) = CHR ''.''" "dropWhile is_space r \<noteq> []"
    by (cases "dropWhile is_space r"; simp split: if_splits)+
  then show ?thesis by (auto simp: hyphen_sep_def split: list.splits)
qed

lemma sep_number_iff:
  "sep_number r = Some ds \<longleftrightarrow> sep_number_match r ds"
proof -
  have "sep_number r = Some ds \<longleftrightarrow> dotted_sep r = Some ds \<or> hyphen_sep r = Some ds"
    using leaders_disjoint [of r] by (cases "dotted_sep r") (auto simp: sep_number_def)
  then show ?thesis
    unfolding dotted_sep_iff hyphen_sep_iff sep_number_match_def by blast
qed

lemma lazy_title_iff:
  "lazy_title pre r = Some (g1, g2) \<longleftrightarrow>
     (\<exists>t rest. r = t @ rest \<and> g1 = pre @ t \<and> newline \<notin> set t \<and> sep_number rest = Some g2 \<and>
        (\<forall>k<length t. sep_number (drop k r) = None))"
proof (induction r arbitrary: pre)
  case Nil
  then show ?case by (auto split: option.splits)
next
  case (Cons c cs)
  show ?case
  proof (cases "sep_number (c # cs)")
    case (Some ds)
    have "(\<exists>t rest. c # cs = t @ rest \<and> g1 = pre @ t \<and> newline \<notin> set t \<and> sep_number rest = Some g2 \<and>
        (\<forall>k<length t. sep_number (drop k (c # cs)) = None)) \<longleftrightarrow> g1 = pre \<and> g2 = ds"
    proof
      assume "\<exists>t rest. c # cs = t @ rest \<and> g1 = pre @ t \<and> newline \<notin> set t \<and> sep_number rest = Some g2 \<and>
        (\<forall>k<length t. sep_number (drop k (c # cs)) = None)"
      then obtain t rest where t: "c # cs = t @ rest" "g1 = pre @ t" "sep_number rest = Some g2"
        "\<forall>k<length t. sep_number (drop k (c # cs)) = None" by blast
      have "t = []"
      proof (rule ccontr)
        assume "t \<noteq> []"
        then have "0 < length t" by simp
        with t(4) have "sep_number (drop 0 (c # cs)) = None" by blast
        with Some show False by simp
      qed
      with t Some show "g1 = pre \<and> g2 = ds" by simp
    next
      assume "g1 = pre \<and> g2 = ds"
      then have "c # cs = [] @ (c # cs) \<and> g1 = pre @ [] \<and> newline \<notin> set [] \<and>
          sep_number (c # cs) = Some g2 \<and> (\<forall>k<length ([]::string). sep_number (drop k (c # cs)) = None)"
        using Some by simp
      then show "\<exists>t rest. c # cs = t @ rest \<and> g1 = pre @ t \<and> newline \<notin> set t \<and> sep_number rest = Some g2 \<and>
        (\<forall>k<length t. sep_number (drop k (c # cs)) = None)" by blast
    qed
    then show ?thesis using Some by auto
  next
    case None
    have "(\<exists>t rest. c # cs = t @ rest \<and> g1 = pre @ t \<and> newline \<notin> set t \<and> sep_number rest = Some g2 \<and>
        (\<forall>k<length t. sep_number (drop k (c # cs)) = None)) \<longleftrightarrow>
      c \<noteq> newline \<and> (\<exists>t rest. cs = t @ rest \<and> g1 = (pre @ [c]) @ t \<and> newline \<notin> set t \<and> sep_number rest = Some g2 \<and>
        (\<forall>k<length t. sep_number (drop k cs) = None))" (is "?L \<longleftrightarrow> ?R")
    proof
      assume ?L
      then obtain t rest where t: "c # cs = t @ rest" "g1 = pre @ t" "newline \<notin> set t"
        "sep_number rest = Some g2" "\<forall>k<length t. sep_number (drop k (c # cs)) = None" by blast
      from t(1,4) None obtain t' where t': "t = c # t'" by (cases t) auto
      have "\<forall>k<length t'. sep_number (drop k cs) = None"
      proof (intro allI impI)
        fix k assume "k < length t'"
        then have "Suc k < length t" by (simp add: t')
        with t(5) have "sep_number (drop (Suc k) (c # cs)) = None" by blast
        then show "sep_number (drop k cs) = None" by simp
      qed
      with t t' show ?R by auto
    next
      assume ?R
      then obtain t rest where c: "c \<noteq> newline" and t: "cs = t @ rest" "g1 = (pre @ [c]) @ t"
        "newline \<notin> set t" "sep_number rest = Some g2" "\<forall>k<length t. sep_number (drop k cs) = None"
        by blast
      have "\<forall>k<length (c # t). sep_number (drop k (c # cs)) = None"
      proof (intro allI impI)
        fix k assume k: "k < length (c # t)"
        show "sep_number (drop k (c # cs)) = None"
        proof (cases k)
          case 0
          then show ?thesis using None by simp
        next
          case (Suc j)
          with k have "j < length t" by simp
          with t(5) Suc show ?thesis by simp
        qed
      qed
      with c t have "c # cs = (c # t) @ rest \<and> g1 = pre @ (c # t) \<and> newline \<notin> set (c # t) \<and>
          sep_number rest = Some g2 \<and> (\<forall>k<length (c # t). sep_number (drop k (c # cs)) = None)"
        by auto
      then show ?L by blast
    qed
    then show ?thesis using None Cons.IH [of "pre @ [c]"] by simp
  qed
qed

lemma has_contenido_iff:
  "has_contenido s \<longleftrightarrow>
     (\<exists>pre w rest. s = pre @ w @ rest \<and> newline \<notin> set pre \<and> map lower w = ''contenido'')"
proof -
  define W where "W = ''contenido''"
  have lenW: "length W = 9" by (simp add: W_def)
  have nil: "\<not> has_contenido []" by simp
  have step: "has_contenido (c # cs) \<longleftrightarrow>
      map lower (take 9 (c # cs)) = W \<or> (c \<noteq> newline \<and> has_contenido cs)" for c cs
    unfolding W_def by (rule has_contenido.simps(2))
  have "has_contenido s \<longleftrightarrow>
     (\<exists>pre w rest. s = pre @ w @ rest \<and> newline \<notin> set pre \<and> map lower w = W)"
  proof (induction s)
    case Nil
    have "\<not> (\<exists>pre w rest. ([]::string) = pre @ w @ rest \<and> newline \<notin> set pre \<and> map lower w = W)"
    proof
      assume "\<exists>pre w rest. ([]::string) = pre @ w @ rest \<and> newline \<notin> set pre \<and> map lower w = W"
      then obtain pre w rest where "([]::string) = pre @ w @ rest" "map lower w = W" by blast
      then have "w = []" "length (map lower w) = length W" by simp_all
      then show False using lenW by simp
    qed
    with nil show ?case by blast
  next
    case (Cons c cs)
    have "(\<exists>pre w rest. c # cs = pre @ w @ rest \<and> newline \<notin> set pre \<and> map lower w = W) \<longleftrightarrow>
        map lower (take 9 (c # cs)) = W \<or>
        (c \<noteq> newline \<and> (\<exists>pre w rest. cs = pre @ w @ rest \<and> newline \<notin> set pre \<and> map lower w = W))"
      (is "?L \<longleftrightarrow> ?A \<or> ?B")
    proof
      assume ?L
      then obtain pre w rest where p: "c # cs = pre @ w @ rest" "newline \<notin> set pre"
        "map lower w = W" by blast
      from p(3) have "length (map lower w) = length W" by (rule arg_cong)
      then have len: "length w = 9" using lenW by simp
      show "?A \<or> ?B"
      proof (cases pre)
        case Nil
        with p(1) have "take 9 (c # cs) = take 9 (w @ rest)" by simp
        also have "\<dots> = w" using len by simp
        finally show ?thesis using p(3) by simp
      next
        case (Cons d pre')
        with p(1,2) have "c \<noteq> newline" "cs = pre' @ w @ rest" "newline \<notin> set pre'" by auto
        with p(3) show ?thesis by blast
      qed
    next
      assume "?A \<or> ?B"
      then show ?L
      proof
        assume a: ?A
        have "c # cs = [] @ take 9 (c # cs) @ drop 9 (c # cs)"
          by (simp only: append_Nil append_take_drop_id)
        moreover have "newline \<notin> set ([]::string)" by simp
        ultimately show ?L using a by blast
      next
        assume ?B
        then obtain pre w rest where b: "c \<noteq> newline" "cs = pre @ w @ rest" "newline \<notin> set pre"
          "map lower w = W" by blast
        then have "c # cs = (c # pre) @ w @ rest" "newline \<notin> set (c # pre)" by simp_all
        with b(4) show ?L by blast
      qed
    qed
    with step [of c cs] Cons.IH show ?case by blast
  qed
  then show ?thesis unfolding W_def .
qed

lemma pattern_match_iff:
  "pattern_match line = Some (g1, g2) \<longleftrightarrow>
     \<not> (\<exists>pre w rest. line = pre @ w @ rest \<and> newline \<notin> set pre \<and> map lower w = ''contenido'') \<and>
     (\<exists>rest. line = g1 @ rest \<and> newline \<notin> set g1 \<and> sep_number_match rest g2 \<and>
        (\<forall>k<length g1. \<forall>ds. \<not> sep_number_match (drop k line) ds))"
proof -
  have none: "sep_number r = None \<longleftrightarrow> (\<forall>ds. \<not> sep_number_match r ds)" for r
    using sep_number_iff [of r] by (cases "sep_number r") auto
  have "pattern_match line = Some (g1, g2) \<longleftrightarrow>
      \<not> has_contenido line \<and> lazy_title [] line = Some (g1, g2)"
    by (simp add: pattern_match_def)
  then show ?thesis
    unfolding lazy_title_iff has_contenido_iff none sep_number_iff by auto
qed

section \<open>The claims\<close>

text \<open>
  Claim C4. For the TOC page text made of the three lines \<^verbatim>\<open>Introduccion .... 3\<close>,
  \<^verbatim>\<open>Capitulo Uno - 10\<close> and \<^verbatim>\<open>Contenido ..... 1\<close>, the TOC parser returns exactly the
  two entries (Introduccion, 3) and (Capitulo Uno, 10), in that order; the line that
  contains Contenido gives no entry.
\<close>

theorem parse_toc_text_example:
  "parse_toc_text
     (''Introduccion .... 3'' @ [newline] @ ''Capitulo Uno - 10'' @ [newline] @ ''Contenido ..... 1'')
     = [(''Introduccion'', 3), (''Capitulo Uno'', 10)]"
  by code_simp

text \<open>
  Claim C6. With the sorted TOC entries (A, 3) and (B, 10), the eligible pages 2 to 20
  and the TOC page 1, the segmentation yields exactly three chapters, whatever the
  page contents: a Prefacio chapter that combines page 2, chapter A that combines the
  pages 3 to 9 and chapter B that combines the pages 10 to 20.
\<close>

theorem segment_chapters_example:
  "segment_chapters page_contents [2..20] [(''A'', 3), (''B'', 10)] (Some 1) =
     Inr [create_chapter ''Prefacio'' (combine_pages page_contents 2 2) ''chapter_prefacio.xhtml'',
          create_chapter ''A'' (combine_pages page_contents 3 9) ''chapter_1.xhtml'',
          create_chapter ''B'' (combine_pages page_contents 10 20) ''chapter_2.xhtml'']"
proof -
  have ne: "[2..20::int] \<noteq> []" by (simp add: upto_rec_numeral)
  have mn: "Min (set [2..20::int]) = 2" by simp
  have mx: "Max (set [2..20::int]) = 20" by simp
  have srt: "sort_key snd [(''A'', 3::int), (''B'', 10)] = [(''A'', 3), (''B'', 10)]" by simp
  have s1: "py_str 1 = ''1''" by code_simp
  have s2: "py_str 2 = ''2''" by code_simp
  have "chapter_plan [2..20] [(''A'', 3), (''B'', 10)] (Some 1) =
      [(''Prefacio'', 2, 2, ''chapter_prefacio.xhtml''), (''A'', 3, 9, ''chapter_1.xhtml''),
       (''B'', 10, 20, ''chapter_2.xhtml'')]"
    unfolding chapter_plan_def srt preface_plan_def entries_plan_def mn mx
    by (simp add: enumerate_simps entry_plan_def not_skipped_def s1 s2 mx del: upto.simps)
  then show ?thesis
    by (simp only: segment_chapters_plan [OF ne] render_plan_def list.map prod.case)
qed

text \<open>
  Claim C1, as the code has it. Whatever the page contents, the eligible pages, the
  TOC entries and the TOC page: the chapters are the rendered plans, each combining
  the mapped pages of its range, and every eligible page lies in exactly one range
  among those of the chapters and those of the skipped entries (the entries that
  start at the TOC page, of which no chapter is made). So no eligible page is in two
  chapters, and every eligible page is in exactly one chapter when no entry starts at
  the TOC page.
\<close>

theorem eligible_page_in_one_range:
  assumes "p \<in> set content_pages"
  shows "segment_chapters page_contents content_pages toc_entries toc_page =
           Inr (map (render_plan page_contents) (chapter_plan content_pages toc_entries toc_page)) \<and>
         length (filter (in_range p) (chapter_plan content_pages toc_entries toc_page)) +
           length (filter (in_range p) (skipped_plan content_pages toc_entries toc_page)) = 1 \<and>
         ((\<forall>e\<in>set toc_entries. Some (snd e) \<noteq> toc_page) \<longrightarrow>
            length (filter (in_range p) (chapter_plan content_pages toc_entries toc_page)) = 1)"
proof -
  from assms have ne: "content_pages \<noteq> []" by auto
  note cnt = partition_count [OF assms, of toc_entries toc_page]
  show ?thesis
    using segment_chapters_plan [OF ne] cnt
    by (auto simp: skipped_plan_empty simp del: One_nat_def)
qed

text \<open>The theorem at four eligible pages and two entries given out of order.\<close>

theorem eligible_page_in_one_range_witness:
  "(4::int) \<in> set [2, 3, 4, 5] \<and>
   chapter_plan [2, 3, 4, 5] [(''B'', 4), (''A'', 3)] (Some 1) =
     [(''Prefacio'', 2, 2, ''chapter_prefacio.xhtml''), (''A'', 3, 3, ''chapter_1.xhtml''),
      (''B'', 4, 5, ''chapter_2.xhtml'')] \<and>
   segment_chapters [4 \<mapsto> ''p4'', 5 \<mapsto> ''p5''] [2, 3, 4, 5] [(''B'', 4), (''A'', 3)] (Some 1) =
     Inr (map (render_plan [4 \<mapsto> ''p4'', 5 \<mapsto> ''p5''])
            (chapter_plan [2, 3, 4, 5] [(''B'', 4), (''A'', 3)] (Some 1))) \<and>
   length (filter (in_range 4) (chapter_plan [2, 3, 4, 5] [(''B'', 4), (''A'', 3)] (Some 1))) = 1"
proof -
  have a: "(4::int) \<in> set [2, 3, 4, 5]" by simp
  have b: "\<forall>e\<in>set [(''B'', 4::int), (''A'', 3)]. Some (snd e) \<noteq> Some 1" by simp
  have c: "chapter_plan [2, 3, 4, 5] [(''B'', 4), (''A'', 3)] (Some 1) =
     [(''Prefacio'', 2, 2, ''chapter_prefacio.xhtml''), (''A'', 3, 3, ''chapter_1.xhtml''),
      (''B'', 4, 5, ''chapter_2.xhtml'')]" by code_simp
  from eligible_page_in_one_range [OF a, of "[4 \<mapsto> ''p4'', 5 \<mapsto> ''p5'']" "[(''B'', 4), (''A'', 3)]" "Some 1"] b
  show ?thesis using a c by blast
qed

text \<open>
  Claim C1 as stated fails where an entry starts at the TOC page: with the eligible
  pages 2, 4, 5, 6, the entries (A, 3) and (B, 6) and the TOC page 3, entry A is
  skipped, and the eligible pages 4 and 5, both in the page contents, are in no
  chapter.
\<close>

theorem skipped_range_omitted:
  "(4::int) \<in> set [2, 4, 5, 6] \<and>
   [2 \<mapsto> ''p2'', 3 \<mapsto> ''toc'', 4 \<mapsto> ''p4'', 5 \<mapsto> ''p5'', 6 \<mapsto> ''p6''] (4::int) = Some ''p4'' \<and>
   segment_chapters [2 \<mapsto> ''p2'', 3 \<mapsto> ''toc'', 4 \<mapsto> ''p4'', 5 \<mapsto> ''p5'', 6 \<mapsto> ''p6'']
       [2, 4, 5, 6] [(''A'', 3), (''B'', 6)] (Some 3) =
     Inr [create_chapter ''Prefacio'' ''p2'' ''chapter_prefacio.xhtml'',
          create_chapter ''B'' ''p6'' ''chapter_2.xhtml''] \<and>
   chapter_plan [2, 4, 5, 6] [(''A'', 3), (''B'', 6)] (Some 3) =
     [(''Prefacio'', 2, 2, ''chapter_prefacio.xhtml''), (''B'', 6, 6, ''chapter_2.xhtml'')] \<and>
   length (filter (in_range 4) (chapter_plan [2, 4, 5, 6] [(''A'', 3), (''B'', 6)] (Some 3))) = 0"
  by code_simp

text \<open>
  Claim C3, as the code has it. The file names are a function of the eligible pages,
  the TOC entries and the TOC page: \<^verbatim>\<open>chapter_prefacio.xhtml\<close> for the preface when there
  is one, then, for each entry of the sorted list that does not start at the TOC page,
  \<^verbatim>\<open>chapter_<idx+1>.xhtml\<close> where \<open>idx\<close> is the 0-based position of the entry in the
  sorted list of all entries. A skipped entry keeps its position, so the numbers of
  the chapters can have gaps.
\<close>

theorem chapter_file_names:
  assumes "content_pages \<noteq> []" and "toc_entries \<noteq> []"
  shows "\<exists>chapters.
           segment_chapters page_contents content_pages toc_entries toc_page = Inr chapters \<and>
           map ch_file_name chapters =
             map (\<lambda>pl. ''chapter_prefacio.xhtml'') (preface_plan content_pages (sort_key snd toc_entries)) @
             map (\<lambda>(idx, title, start_page). ''chapter_'' @ py_str (int idx + 1) @ ''.xhtml'')
               (filter (\<lambda>(idx, title, start_page). Some start_page \<noteq> toc_page)
                  (enumerate 0 (sort_key snd toc_entries)))"
proof -
  have "map (\<lambda>pl. snd (snd (snd pl))) (preface_plan content_pages (sort_key snd toc_entries))
      = map (\<lambda>pl. ''chapter_prefacio.xhtml'') (preface_plan content_pages (sort_key snd toc_entries))"
    by (auto simp: preface_plan_def split: list.splits)
  moreover have "map (\<lambda>pl. snd (snd (snd pl))) (entries_plan content_pages (sort_key snd toc_entries) toc_page)
      = map (\<lambda>(idx, title, start_page). ''chapter_'' @ py_str (int idx + 1) @ ''.xhtml'')
               (filter (\<lambda>(idx, title, start_page). Some start_page \<noteq> toc_page)
                  (enumerate 0 (sort_key snd toc_entries)))"
    by (simp add: entries_plan_def entry_plan_def not_skipped_def split_def)
  ultimately show ?thesis
    using assms(2)
    by (simp add: segment_chapters_plan [OF assms(1)] chapter_plan_def file_name_render_plan
        cong: map_cong)
qed

text \<open>
  The theorem at three entries given out of order, the first of the sorted list
  starting at the TOC page: the chapters are numbered 2 and 3.
\<close>

theorem chapter_file_names_witness:
  "[2, 4, 5::int] \<noteq> [] \<and> [(''B'', 5::int), (''A'', 3), (''C'', 5)] \<noteq> [] \<and>
   (\<exists>chapters.
      segment_chapters [2 \<mapsto> ''p2''] [2, 4, 5] [(''B'', 5), (''A'', 3), (''C'', 5)] (Some 3) = Inr chapters \<and>
      map ch_file_name chapters = [''chapter_prefacio.xhtml'', ''chapter_2.xhtml'', ''chapter_3.xhtml''])"
proof -
  have a: "[2, 4, 5::int] \<noteq> []" by simp
  have b: "[(''B'', 5::int), (''A'', 3), (''C'', 5)] \<noteq> []" by simp
  have c: "map (\<lambda>pl. ''chapter_prefacio.xhtml'') (preface_plan [2, 4, 5::int] (sort_key snd [(''B'', 5), (''A'', 3), (''C'', 5)])) @
             map (\<lambda>(idx, title, start_page). ''chapter_'' @ py_str (int idx + 1) @ ''.xhtml'')
               (filter (\<lambda>(idx, title, start_page). Some start_page \<noteq> Some 3)
                  (enumerate 0 (sort_key snd [(''B'', 5::int), (''A'', 3), (''C'', 5)])))
        = [''chapter_prefacio.xhtml'', ''chapter_2.xhtml'', ''chapter_3.xhtml'']"
    by code_simp
  show ?thesis
    using chapter_file_names [OF a b, of "[2 \<mapsto> ''p2'']" "Some 3"] a b unfolding c by blast
qed

text \<open>
  Claim C3 as stated fails where an entry is skipped: with the entries (A, 3) and
  (B, 5) and the TOC page 3, the only chapter made of a TOC entry is that of B, and
  its file is \<^verbatim>\<open>chapter_2.xhtml\<close>, not \<^verbatim>\<open>chapter_1.xhtml\<close>.
\<close>

theorem skipped_entry_consumes_index:
  "segment_chapters [2 \<mapsto> ''p2'', 3 \<mapsto> ''toc'', 4 \<mapsto> ''p4'', 5 \<mapsto> ''p5'']
       [2, 4, 5] [(''A'', 3), (''B'', 5)] (Some 3) =
     Inr [create_chapter ''Prefacio'' ''p2'' ''chapter_prefacio.xhtml'',
          create_chapter ''B'' ''p5'' ''chapter_2.xhtml'']"
  by code_simp

text \<open>
  Claim C7. For every list of TOC entries and every TOC page, an entry whose starting
  page is the TOC page gives no chapter: the chapters are the preface, if any, and
  then one chapter for each entry of the sorted list whose starting page is not the
  TOC page, in that order, with the title and the first page of that entry.
\<close>

theorem skipped_entries_give_no_chapter:
  assumes "content_pages \<noteq> []" and "toc_entries \<noteq> []"
  shows "segment_chapters page_contents content_pages toc_entries toc_page =
           Inr (map (render_plan page_contents)
                  (preface_plan content_pages (sort_key snd toc_entries) @
                   entries_plan content_pages (sort_key snd toc_entries) toc_page)) \<and>
         map (\<lambda>(title, first_page, last_page, filename). (title, first_page))
             (entries_plan content_pages (sort_key snd toc_entries) toc_page) =
           filter (\<lambda>(title, start_page). Some start_page \<noteq> toc_page) (sort_key snd toc_entries) \<and>
         length (preface_plan content_pages (sort_key snd toc_entries)) \<le> 1"
proof -
  have "map (\<lambda>(title, first_page, last_page, filename). (title, first_page))
          (map (entry_plan content_pages ses) (filter (not_skipped toc_page) xs))
       = filter (\<lambda>(title, start_page). Some start_page \<noteq> toc_page) (map snd xs)" for ses xs
    by (induction xs) (auto simp: entry_plan_def not_skipped_def)
  then have "map (\<lambda>(title, first_page, last_page, filename). (title, first_page))
             (entries_plan content_pages (sort_key snd toc_entries) toc_page) =
           filter (\<lambda>(title, start_page). Some start_page \<noteq> toc_page) (sort_key snd toc_entries)"
    by (simp add: entries_plan_def)
  moreover have "length (preface_plan content_pages (sort_key snd toc_entries)) \<le> 1"
    by (simp add: preface_plan_def split: list.splits)
  ultimately show ?thesis
    using assms(2) by (simp add: segment_chapters_plan [OF assms(1)] chapter_plan_def)
qed

text \<open>The theorem at two entries, the first of the sorted list starting at the TOC page.\<close>

theorem skipped_entries_give_no_chapter_witness:
  "[2, 4, 5::int] \<noteq> [] \<and> [(''B'', 5::int), (''A'', 3)] \<noteq> [] \<and>
   segment_chapters [2 \<mapsto> ''p2'', 5 \<mapsto> ''p5''] [2, 4, 5] [(''B'', 5), (''A'', 3)] (Some 3) =
     Inr [create_chapter ''Prefacio'' ''p2'' ''chapter_prefacio.xhtml'',
          create_chapter ''B'' ''p5'' ''chapter_2.xhtml''] \<and>
   map (\<lambda>(title, first_page, last_page, filename). (title, first_page))
       (entries_plan [2, 4, 5] (sort_key snd [(''B'', 5), (''A'', 3)]) (Some 3)) = [(''B'', 5)]"
proof -
  have a: "[2, 4, 5::int] \<noteq> []" by simp
  have b: "[(''B'', 5::int), (''A'', 3)] \<noteq> []" by simp
  have c: "map (render_plan [2 \<mapsto> ''p2'', 5 \<mapsto> ''p5''])
                  (preface_plan [2, 4, 5] (sort_key snd [(''B'', 5), (''A'', 3)]) @
                   entries_plan [2, 4, 5] (sort_key snd [(''B'', 5), (''A'', 3)]) (Some 3))
     = [create_chapter ''Prefacio'' ''p2'' ''chapter_prefacio.xhtml'',
          create_chapter ''B'' ''p5'' ''chapter_2.xhtml'']" by code_simp
  have d: "filter (\<lambda>(title, start_page). Some start_page \<noteq> Some (3::int)) (sort_key snd [(''B'', 5), (''A'', 3)])
      = [(''B'', 5)]" by code_simp
  show ?thesis
    using skipped_entries_give_no_chapter [OF a b, of "[2 \<mapsto> ''p2'', 5 \<mapsto> ''p5'']" "Some 3"] a b
    unfolding c d by blast
qed

text \<open>
  Claim C5, as the code has it. For a PDF with \<open>N\<close> pages, \<open>N\<close> at least 2, and no TOC
  page given, the eligible pages are 2 to \<open>N\<close>, each of them has its content, and the
  conversion makes exactly one chapter, titled Contenido and named
  \<^verbatim>\<open>chapter_1.xhtml\<close>, that combines the pages 2 to \<open>N\<close>.
\<close>

theorem no_toc_page_single_chapter:
  assumes "2 \<le> page_count doc"
  shows "content_pages_of doc None = [2..int (page_count doc)] \<and>
         dom (fst (extract_pages doc)) = {2..int (page_count doc)} \<and>
         pdf_to_epub doc None =
           Inr \<lparr>book_images = fst (snd (extract_pages doc)),
                book_chapters =
                  [create_chapter ''Contenido''
                     (combine_pages (fst (extract_pages doc)) 2 (int (page_count doc)))
                     ''chapter_1.xhtml'']\<rparr>"
proof -
  from assms have le: "(2::int) \<le> int (page_count doc)" by simp
  have cp: "content_pages_of doc None = [2..int (page_count doc)]"
    by (simp add: content_pages_of_def)
  have te: "toc_entries_of doc None = []"
    by (simp add: toc_entries_of_def)
  have "segment_chapters (fst (extract_pages doc)) [2..int (page_count doc)] [] None =
      Inr [create_chapter ''Contenido''
                     (combine_pages (fst (extract_pages doc)) 2 (int (page_count doc)))
                     ''chapter_1.xhtml'']"
    by (simp only: segment_chapters_plan [OF upto_ne [OF le]] chapter_plan_def Min_upto [OF le]
        Max_upto [OF le] render_plan_def if_True list.map prod.case simp_thms)
  then show ?thesis using assms
    by (simp add: pdf_to_epub_def cp te split_def extract_pages_dom Let_def)
qed

text \<open>The theorem at a PDF with three pages.\<close>

theorem no_toc_page_single_chapter_witness:
  "(2::nat) \<le> page_count \<lparr>page_count = 3, page_text = (\<lambda>i. ''texto''), page_images = (\<lambda>i. [])\<rparr> \<and>
   pdf_to_epub \<lparr>page_count = 3, page_text = (\<lambda>i. ''texto''), page_images = (\<lambda>i. [])\<rparr> None =
     Inr \<lparr>book_images = [],
          book_chapters =
            [create_chapter ''Contenido''
               (''texto'' @ page_marker 2 @ ''texto'' @ page_marker 3) ''chapter_1.xhtml'']\<rparr>"
proof -
  let ?doc = "\<lparr>page_count = 3, page_text = (\<lambda>i. ''texto''), page_images = (\<lambda>i. [])\<rparr>"
  have a: "(2::nat) \<le> page_count ?doc" by simp
  have b: "fst (snd (extract_pages ?doc)) = []" by code_simp
  have c: "combine_pages (fst (extract_pages ?doc)) 2 (int (page_count ?doc)) =
     ''texto'' @ page_marker 2 @ ''texto'' @ page_marker 3" by code_simp
  show ?thesis using no_toc_page_single_chapter [OF a] a unfolding b c by blast
qed

text \<open>
  Claim C5 as stated, for any number of pages, fails at a PDF with one page: there
  is no eligible page, \<^verbatim>\<open>min\<close> raises \<^verbatim>\<open>ValueError\<close> and no chapter is made.
\<close>

theorem one_page_pdf_fails:
  "pdf_to_epub \<lparr>page_count = 1, page_text = (\<lambda>i. ''portada''), page_images = (\<lambda>i. [])\<rparr> None
     = Inl ValueError"
  by code_simp

text \<open>
  Claim C10. The list of eligible pages is empty exactly when the PDF has at most one
  page or has two pages of which the second is the TOC page. Then the segmentation
  raises \<^verbatim>\<open>ValueError\<close>, whatever the TOC entries, since it takes the minimum of the
  eligible pages, and \<^verbatim>\<open>pdf_to_epub\<close> ends with an error before any book is written
  (for a document without pages the error is that of reading page 0 for the cover).
\<close>

theorem no_content_pages_fails:
  "(content_pages_of doc toc_page = [] \<longleftrightarrow>
      page_count doc \<le> 1 \<or> (page_count doc = 2 \<and> toc_page = Some 2)) \<and>
   (content_pages_of doc toc_page = [] \<longrightarrow>
      segment_chapters page_contents (content_pages_of doc toc_page) toc_entries toc_page = Inl ValueError \<and>
      pdf_to_epub doc toc_page = Inl (if page_count doc = 0 then IndexError else ValueError))"
proof (intro conjI impI)
  show "content_pages_of doc toc_page = [] \<longleftrightarrow>
      page_count doc \<le> 1 \<or> (page_count doc = 2 \<and> toc_page = Some 2)"
    by (rule content_pages_of_empty)
next
  assume "content_pages_of doc toc_page = []"
  then show "segment_chapters page_contents (content_pages_of doc toc_page) toc_entries toc_page
      = Inl ValueError"
    by (simp only: segment_chapters_empty)
next
  assume "content_pages_of doc toc_page = []"
  then show "pdf_to_epub doc toc_page = Inl (if page_count doc = 0 then IndexError else ValueError)"
    by (simp add: pdf_to_epub_def segment_chapters_empty split_def Let_def)
qed

text \<open>The theorem at a PDF with two pages whose second page is the TOC page.\<close>

theorem no_content_pages_fails_witness:
  "content_pages_of \<lparr>page_count = 2, page_text = (\<lambda>i. ''Uno .... 2''), page_images = (\<lambda>i. [])\<rparr> (Some 2) = [] \<and>
   toc_entries_of \<lparr>page_count = 2, page_text = (\<lambda>i. ''Uno .... 2''), page_images = (\<lambda>i. [])\<rparr> (Some 2) = [(''Uno'', 2)] \<and>
   pdf_to_epub \<lparr>page_count = 2, page_text = (\<lambda>i. ''Uno .... 2''), page_images = (\<lambda>i. [])\<rparr> (Some 2) = Inl ValueError"
proof -
  let ?doc = "\<lparr>page_count = 2, page_text = (\<lambda>i. ''Uno .... 2''), page_images = (\<lambda>i. [])\<rparr>"
  have a: "content_pages_of ?doc (Some 2) = []" by code_simp
  have b: "toc_entries_of ?doc (Some 2) = [(''Uno'', 2)]" by code_simp
  have c: "page_count ?doc \<noteq> 0" by simp
  show ?thesis using no_content_pages_fails [of ?doc "Some 2" Map.empty "[]"] a b c by simp
qed

text \<open>
  Claim C2. The TOC page is never one of the eligible pages (\<open>toc_page_not_content\<close>),
  but the chapters combine every page of the page contents in their range, and the
  page contents hold the TOC page. For a PDF with four pages whose page 3 is the TOC
  page and reads \<^verbatim>\<open>Uno .... 2\<close>, the eligible pages are 2 and 4 and the only chapter
  combines the pages 2, 3 and 4: the text of the TOC page is in the chapter.
\<close>

theorem toc_page_content_in_chapter:
  "content_pages_of
      \<lparr>page_count = 4, page_text = (\<lambda>i. if i = 2 then ''Uno .... 2'' else ''texto''), page_images = (\<lambda>i. [])\<rparr>
      (Some 3) = [2, 4] \<and>
   toc_entries_of
      \<lparr>page_count = 4, page_text = (\<lambda>i. if i = 2 then ''Uno .... 2'' else ''texto''), page_images = (\<lambda>i. [])\<rparr>
      (Some 3) = [(''Uno'', 2)] \<and>
   pdf_to_epub
      \<lparr>page_count = 4, page_text = (\<lambda>i. if i = 2 then ''Uno .... 2'' else ''texto''), page_images = (\<lambda>i. [])\<rparr>
      (Some 3) =
     Inr \<lparr>book_images = [],
          book_chapters =
            [create_chapter ''Uno''
               (''texto'' @ page_marker 2 @ ''Uno .... 2'' @ page_marker 3 @ ''texto'' @ page_marker 4)
               ''chapter_1.xhtml'']\<rparr>"
  by code_simp

text \<open>
  Claim C8, as the code has it. For every input text, every TOC entry that the parser
  returns has a starting page that is not negative: the page is the value of a
  non-empty run of digits. It can be zero.
\<close>

theorem toc_pages_not_negative:
  "\<forall>e\<in>set (parse_toc_text text). 0 \<le> snd e"
  unfolding parse_toc_text_def by (rule parse_lines_nonneg) simp

text \<open>The theorem at a text of two lines, one for each separator.\<close>

theorem toc_pages_not_negative_witness:
  "parse_toc_text (''Uno .... 0'' @ [newline] @ ''Dos - 7'') = [(''Uno'', 0), (''Dos'', 7)] \<and>
   (0::int) \<le> snd (''Dos'', 7::int)"
proof -
  have a: "parse_toc_text (''Uno .... 0'' @ [newline] @ ''Dos - 7'') = [(''Uno'', 0), (''Dos'', 7)]"
    by code_simp
  from toc_pages_not_negative [of "''Uno .... 0'' @ [newline] @ ''Dos - 7''"]
  have "(0::int) \<le> snd (''Dos'', 7::int)" unfolding a by simp
  with a show ?thesis by simp
qed

text \<open>
  Claim C8 as stated, with a page strictly greater than zero, fails at the line
  \<^verbatim>\<open>A .. 0\<close>: the parser returns the entry (A, 0).
\<close>

theorem toc_page_zero:
  "parse_toc_text ''A .. 0'' = [(''A'', 0)]"
  by code_simp

text \<open>
  Claim C9. The usage message names two required arguments, the input PDF and the
  output EPUB, but the check is \<^verbatim>\<open>len(sys.argv) < 2\<close>: only a command line without any
  argument gets the usage message and exit status 1 (\<open>main_usage\<close>). With the input
  path alone the program does not print the usage message; it calls \<^verbatim>\<open>pdf_to_epub\<close> with
  an output path made from the input path. With the two arguments of the usage message
  the second is read as the TOC page and \<^verbatim>\<open>int\<close> raises \<^verbatim>\<open>ValueError\<close>; with all three
  the TOC page is ignored.
\<close>

theorem main_input_only:
  "main [''pdf_to_epub.py'', ''libro.pdf''] = Inr (Call_pdf_to_epub ''libro.pdf'' ''libro.epub'' None) \<and>
   main [''pdf_to_epub.py'', ''libro.pdf'', ''libro.epub''] = Inl ValueError \<and>
   main [''pdf_to_epub.py'', ''libro.pdf'', ''3''] = Inr (Call_pdf_to_epub ''libro.pdf'' ''libro.epub'' (Some 3)) \<and>
   main [''pdf_to_epub.py'', ''libro.pdf'', ''libro.epub'', ''3''] =
     Inr (Call_pdf_to_epub ''libro.pdf'' ''libro.epub'' None) \<and>
   main [''pdf_to_epub.py''] = Inr (Exit usage 1)"
  by code_simp

end
